theory Spec2Isabelle
  imports Main
begin

section \<open>The worker-local cache of spaCy models (sentiment.ipynb)\<close>

text \<open>
  The notebook keeps one loaded spaCy model per language in a class attribute:
  \<^verbatim>\<open>
  class SpacyMagic(object):
      _spacys = {}

      @classmethod
      def get(cls, lang):
          if lang not in cls._spacys:
              import spacy
              cls._spacys[lang] = spacy.load(lang)
          return cls._spacys[lang]
  \<close>
  and the user-defined function that splits an update into sentences asks for the
  English model on every call:
  \<^verbatim>\<open>
  def split_sentences_impl(s):
      english = SpacyMagic.get("en")
      return [str(sentence) for sentence in english(s).sents]
  \<close>
\<close>

subsection \<open>Data\<close>

text \<open>
  A Python \<open>str\<close> object: its identity (what \<open>is\<close> compares) and its characters (what
  \<open>==\<close> and \<open>hash\<close> look at). A \<open>dict\<close> finds a \<open>str\<close> key by its characters, so the
  dictionary below is keyed by \<open>chars\<close>.
\<close>

record pystr =
  ident :: nat
  chars :: string

text \<open>Exceptions: the \<open>KeyError\<close> of a failed subscript, and whatever the loader raises.\<close>

datatype exn = KeyError string | LoadError string

text \<open>
  One entry of the log of calls to \<open>spacy.load\<close>: the key it was called with and what
  came back. The log is not in the source; it is there to count the calls.
\<close>

datatype 'r event = Built string 'r | Failed string exn

fun event_key :: "'r event \<Rightarrow> string" where
  "event_key (Built k r) = k"
| "event_key (Failed k e) = k"

fun is_built :: "'r event \<Rightarrow> bool" where
  "is_built (Built k r) = True"
| "is_built (Failed k e) = False"

definition invocations :: "string \<Rightarrow> 'r event list \<Rightarrow> nat" where
  "invocations k tr = length (filter (\<lambda>e. event_key e = k) tr)"

text \<open>
  The state of one Python process: the class attribute \<open>_spacys\<close>, the state \<open>world\<close>
  of everything \<open>spacy.load\<close> reads and writes (files, the module table), and the log.
  \<open>'r\<close> is the type of references to loaded models: two references are equal exactly
  when they are the same object.
\<close>

record ('w, 'r) process =
  spacys :: "string \<rightharpoonup> 'r"
  world :: 'w
  trace :: "'r event list"

text \<open>
  \<open>import spacy; spacy.load(lang)\<close> is not code of the notebook: it is a parameter,
  a routine that may raise and may change the world. It never touches \<open>_spacys\<close>.
\<close>

type_synonym ('w, 'r) loader = "string \<Rightarrow> 'w \<Rightarrow> (exn + 'r) \<times> 'w"

text \<open>\<open>_spacys = {}\<close>: the class body runs once, when the process defines the class.\<close>

definition fresh :: "'w \<Rightarrow> ('w, 'r) process" where
  "fresh w = \<lparr>spacys = Map.empty, world = w, trace = []\<rparr>"

subsection \<open>SpacyMagic.get\<close>

text \<open>
  The statement \<open>cls._spacys[lang] = spacy.load(lang)\<close>: the right-hand side runs
  first, and when it raises nothing is stored.
\<close>

definition construct :: "('w, 'r) loader \<Rightarrow> string \<Rightarrow> ('w, 'r) process \<Rightarrow> (exn + unit) \<times> ('w, 'r) process" where
  "construct spacy_load k p =
     (case spacy_load k (world p) of
        (Inl e, w') \<Rightarrow> (Inl e, p\<lparr>world := w', trace := trace p @ [Failed k e]\<rparr>)
      | (Inr r, w') \<Rightarrow>
          (Inr (), p\<lparr>spacys := (spacys p)(k \<mapsto> r), world := w', trace := trace p @ [Built k r]\<rparr>))"

definition get :: "('w, 'r) loader \<Rightarrow> pystr \<Rightarrow> ('w, 'r) process \<Rightarrow> (exn + 'r) \<times> ('w, 'r) process" where
  "get spacy_load lang p =
     (case (if spacys p (chars lang) = None then construct spacy_load (chars lang) p
            else (Inr (), p)) of
        (Inl e, p') \<Rightarrow> (Inl e, p')
      | (Inr u, p') \<Rightarrow>
          (case spacys p' (chars lang) of
             None \<Rightarrow> (Inl (KeyError (chars lang)), p')
           | Some r \<Rightarrow> (Inr r, p')))"

text \<open>
  A sequence of calls in one process. A call that raises ends that call only: the
  process lives on and serves the next one.
\<close>

fun gets :: "('w, 'r) loader \<Rightarrow> pystr list \<Rightarrow> ('w, 'r) process \<Rightarrow> (exn + 'r) list \<times> ('w, 'r) process" where
  "gets spacy_load [] p = ([], p)"
| "gets spacy_load (lang # langs) p =
     (case get spacy_load lang p of
        (x, p') \<Rightarrow> (case gets spacy_load langs p' of (xs, p'') \<Rightarrow> (x # xs, p'')))"

subsection \<open>split_sentences_impl\<close>

text \<open>The literal \<open>"en"\<close> of \<open>split_sentences_impl\<close>.\<close>

definition en :: pystr where
  "en = \<lparr>ident = 0, chars = ''en''\<rparr>"

text \<open>
  \<open>[str(sentence) for sentence in english(s).sents]\<close> is spaCy's work: the parameter
  \<open>sents\<close>, which may raise and may change the world.
\<close>

definition split_sentences_impl ::
  "('w, 'r) loader \<Rightarrow> ('r \<Rightarrow> string \<Rightarrow> 'w \<Rightarrow> (exn + string list) \<times> 'w) \<Rightarrow> string
     \<Rightarrow> ('w, 'r) process \<Rightarrow> (exn + string list) \<times> ('w, 'r) process" where
  "split_sentences_impl spacy_load sents s p =
     (case get spacy_load en p of
        (Inl e, p') \<Rightarrow> (Inl e, p')
      | (Inr english, p') \<Rightarrow>
          (case sents english s (world p') of (x, w') \<Rightarrow> (x, p'\<lparr>world := w'\<rparr>)))"

fun split_all ::
  "('w, 'r) loader \<Rightarrow> ('r \<Rightarrow> string \<Rightarrow> 'w \<Rightarrow> (exn + string list) \<times> 'w) \<Rightarrow> string list
     \<Rightarrow> ('w, 'r) process \<Rightarrow> (exn + string list) list \<times> ('w, 'r) process" where
  "split_all spacy_load sents [] p = ([], p)"
| "split_all spacy_load sents (s # ss) p =
     (case split_sentences_impl spacy_load sents s p of
        (x, p') \<Rightarrow> (case split_all spacy_load sents ss p' of (xs, p'') \<Rightarrow> (x # xs, p'')))"

subsection \<open>Threads\<close>

text \<open>
  A thread inside \<open>get\<close> is at one of the places where the interpreter may hand the
  processor to another thread: before the test, before the call of the loader, between
  the loader's return and the store, before the final subscript, or it has left \<open>get\<close>
  with a value or an exception. There is no lock in \<open>get\<close>.
\<close>

datatype 'r pc = AtCheck | AtLoad | AtStore 'r | AtReturn | Done "exn + 'r"

fun thread_step :: "('w, 'r) loader \<Rightarrow> pystr \<Rightarrow> 'r pc \<Rightarrow> ('w, 'r) process \<Rightarrow> 'r pc \<times> ('w, 'r) process" where
  "thread_step spacy_load lang AtCheck p =
     (if spacys p (chars lang) = None then (AtLoad, p) else (AtReturn, p))"
| "thread_step spacy_load lang AtLoad p =
     (case spacy_load (chars lang) (world p) of
        (Inl e, w') \<Rightarrow> (Done (Inl e), p\<lparr>world := w', trace := trace p @ [Failed (chars lang) e]\<rparr>)
      | (Inr r, w') \<Rightarrow> (AtStore r, p\<lparr>world := w', trace := trace p @ [Built (chars lang) r]\<rparr>))"
| "thread_step spacy_load lang (AtStore r) p =
     (AtReturn, p\<lparr>spacys := (spacys p)(chars lang \<mapsto> r)\<rparr>)"
| "thread_step spacy_load lang AtReturn p =
     (case spacys p (chars lang) of
        None \<Rightarrow> (Done (Inl (KeyError (chars lang))), p)
      | Some r \<Rightarrow> (Done (Inr r), p))"
| "thread_step spacy_load lang (Done x) p = (Done x, p)"

text \<open>The threads of a process, each with the argument of its call, and a schedule.\<close>

definition spawn :: "pystr list \<Rightarrow> (pystr \<times> 'r pc) list" where
  "spawn langs = map (\<lambda>lang. (lang, AtCheck)) langs"

definition sched_step ::
  "('w, 'r) loader \<Rightarrow> nat \<Rightarrow> (pystr \<times> 'r pc) list \<times> ('w, 'r) process
     \<Rightarrow> (pystr \<times> 'r pc) list \<times> ('w, 'r) process" where
  "sched_step spacy_load i st =
     (case st of (ts, p) \<Rightarrow>
        if i < length ts then
          (case ts ! i of (lang, c) \<Rightarrow>
             (case thread_step spacy_load lang c p of (c', p') \<Rightarrow> (ts[i := (lang, c')], p')))
        else (ts, p))"

fun run :: "('w, 'r) loader \<Rightarrow> nat list \<Rightarrow> (pystr \<times> 'r pc) list \<times> ('w, 'r) process
     \<Rightarrow> (pystr \<times> 'r pc) list \<times> ('w, 'r) process" where
  "run spacy_load [] st = st"
| "run spacy_load (i # sched) st = run spacy_load sched (sched_step spacy_load i st)"

text \<open>
  A schedule without overlap: the threads run in the given order, each one from the test
  to the return (four steps at most) before the next one starts.
\<close>

definition serial :: "nat list \<Rightarrow> nat list" where
  "serial order = concat (map (\<lambda>i. replicate 4 i) order)"

subsection \<open>The counting loader of the scenarios\<close>

text \<open>
  Modelled from the spec: the construction routine of scenarios 5 and 6, which is a test
  double and not code of the repository: it increments a counter and returns a new marker
  object tagged with the key. The markers live in a heap; a reference is the marker's
  address, here its index.
\<close>

record counting =
  counter :: nat
  markers :: "string list"

definition counting_start :: counting where
  "counting_start = \<lparr>counter = 0, markers = []\<rparr>"

definition counting_load :: "(counting, nat) loader" where
  "counting_load k w =
     (Inr (length (markers w)), w\<lparr>counter := counter w + 1, markers := markers w @ [k]\<rparr>)"

text \<open>
  Two more keys for the examples: another language, and a second \<open>str\<close> object with the
  characters of \<open>en\<close>.
\<close>

definition fr :: pystr where
  "fr = \<lparr>ident = 1, chars = ''fr''\<rparr>"

definition en2 :: pystr where
  "en2 = \<lparr>ident = 2, chars = ''en''\<rparr>"

text \<open>A loader that finds nothing to load while the world is \<open>0\<close>, and loads afterwards.\<close>

definition flaky_load :: "(nat, nat) loader" where
  "flaky_load k w = (if w = 0 then (Inl (LoadError k), Suc w) else (Inr w, Suc w))"

subsection \<open>Invariants\<close>

text \<open>
  What a process that only ever runs \<open>split_sentences_impl\<close> looks like: no key but \<open>en\<close>
  in the cache, and a log of failed loads of \<open>en\<close> followed by the one successful load
  exactly when \<open>en\<close> is cached.
\<close>

definition only_en :: "('w, 'r) process \<Rightarrow> bool" where
  "only_en p \<longleftrightarrow>
     dom (spacys p) \<subseteq> {''en''} \<and>
     (\<exists>fs. (\<forall>e\<in>set fs. \<exists>x. e = Failed ''en'' x) \<and>
        trace p = fs @ (case spacys p ''en'' of None \<Rightarrow> [] | Some r \<Rightarrow> [Built ''en'' r]))"

text \<open>
  What holds of threads under every schedule: an instance in the cache, in a thread's hands
  on its way to the cache, or returned by a thread, is one that a call of the loader for
  that key has returned.
\<close>

definition built_ok :: "(pystr \<times> 'r pc) list \<times> ('w, 'r) process \<Rightarrow> bool" where
  "built_ok st \<longleftrightarrow>
     (\<forall>k x. spacys (snd st) k = Some x \<longrightarrow> Built k x \<in> set (trace (snd st))) \<and>
     (\<forall>l c. (l, c) \<in> set (fst st) \<longrightarrow>
        (\<forall>x. c = AtStore x \<or> c = Done (Inr x) \<longrightarrow> Built (chars l) x \<in> set (trace (snd st))))"

section \<open>Properties\<close>

lemmas eval_defs = get_def construct_def counting_load_def counting_start_def flaky_load_def
  fresh_def en_def fr_def en2_def

subsection \<open>One call\<close>

lemma get_hit: "spacys p (chars lang) = Some r \<Longrightarrow> get spacy_load lang p = (Inr r, p)"
  by (simp add: get_def)

lemma get_miss_built:
  "spacys p (chars lang) = None \<Longrightarrow> spacy_load (chars lang) (world p) = (Inr r, w') \<Longrightarrow>
   get spacy_load lang p =
     (Inr r, p\<lparr>spacys := (spacys p)(chars lang \<mapsto> r), world := w',
               trace := trace p @ [Built (chars lang) r]\<rparr>)"
  by (simp add: get_def construct_def)

lemma get_miss_failed:
  "spacys p (chars lang) = None \<Longrightarrow> spacy_load (chars lang) (world p) = (Inl e, w') \<Longrightarrow>
   get spacy_load lang p =
     (Inl e, p\<lparr>world := w', trace := trace p @ [Failed (chars lang) e]\<rparr>)"
  by (simp add: get_def construct_def)

text \<open>The three ways a call can go: a hit, a miss that builds, a miss that fails.\<close>

lemma get_cases:
  assumes "get spacy_load lang p = (x, p')"
  obtains (hit) r where "spacys p (chars lang) = Some r" "x = Inr r" "p' = p"
  | (built) r w' where "spacys p (chars lang) = None" "spacy_load (chars lang) (world p) = (Inr r, w')"
      "x = Inr r" "p' = p\<lparr>spacys := (spacys p)(chars lang \<mapsto> r), world := w',
               trace := trace p @ [Built (chars lang) r]\<rparr>"
  | (failed) e w' where "spacys p (chars lang) = None" "spacy_load (chars lang) (world p) = (Inl e, w')"
      "x = Inl e" "p' = p\<lparr>world := w', trace := trace p @ [Failed (chars lang) e]\<rparr>"
proof (cases "spacys p (chars lang)")
  case (Some r)
  with assms get_hit[OF Some, of spacy_load] show ?thesis by (auto intro: hit)
next
  case None
  obtain y w' where ld: "spacy_load (chars lang) (world p) = (y, w')" by (cases "spacy_load (chars lang) (world p)")
  show ?thesis
  proof (cases y)
    case (Inl e)
    with assms get_miss_failed[OF None, of spacy_load e w'] ld None show ?thesis by (auto intro: failed)
  next
    case (Inr r)
    with assms get_miss_built[OF None, of spacy_load r w'] ld None show ?thesis by (auto intro: built)
  qed
qed

subsection \<open>Counting calls of the loader\<close>

lemma invocations_append [simp]:
  "invocations k (tr @ tr') = invocations k tr + invocations k tr'"
  by (simp add: invocations_def)

lemma invocations_single [simp]:
  "invocations k [e] = (if event_key e = k then 1 else 0)"
  by (simp add: invocations_def)

lemma invocations_Nil [simp]: "invocations k [] = 0"
  by (simp add: invocations_def)

subsection \<open>Sequences of calls\<close>

lemma get_other_key:
  assumes "get spacy_load lang p = (x, p')" "chars lang \<noteq> k"
  shows "spacys p' k = spacys p k \<and> invocations k (trace p') = invocations k (trace p)"
  using assms(1)
  by (cases rule: get_cases) (use assms(2) in auto)

lemma get_cached_stays:
  assumes "get spacy_load lang p = (x, p')" "spacys p k = Some r"
  shows "spacys p' k = Some r \<and> invocations k (trace p') = invocations k (trace p)
         \<and> (chars lang = k \<longrightarrow> x = Inr r)"
  using assms(1)
  by (cases rule: get_cases) (use assms(2) in auto)

lemma gets_length: "gets spacy_load langs p = (xs, p') \<Longrightarrow> length xs = length langs"
  by (induction langs arbitrary: p xs p') (auto split: prod.splits)

lemma gets_other_keys:
  "gets spacy_load langs p = (xs, p') \<Longrightarrow> \<forall>l\<in>set langs. chars l \<noteq> k \<Longrightarrow>
   spacys p' k = spacys p k \<and> invocations k (trace p') = invocations k (trace p)"
proof (induction langs arbitrary: p xs p')
  case Nil
  then show ?case by simp
next
  case (Cons lang langs)
  obtain x p1 where g: "get spacy_load lang p = (x, p1)" by (cases "get spacy_load lang p")
  obtain ys p2 where gs: "gets spacy_load langs p1 = (ys, p2)" by (cases "gets spacy_load langs p1")
  from Cons.prems g gs have p': "p' = p2" by simp
  from get_other_key[OF g, of k] Cons.prems(2) Cons.IH[OF gs] p' show ?case by simp
qed

lemma gets_cached_stays:
  "gets spacy_load langs p = (xs, p') \<Longrightarrow> spacys p k = Some r \<Longrightarrow>
   spacys p' k = Some r \<and> invocations k (trace p') = invocations k (trace p)
   \<and> (\<forall>i<length langs. chars (langs ! i) = k \<longrightarrow> xs ! i = Inr r)"
proof (induction langs arbitrary: p xs p')
  case Nil
  then show ?case by simp
next
  case (Cons lang langs)
  obtain x p1 where g: "get spacy_load lang p = (x, p1)" by (cases "get spacy_load lang p")
  obtain ys p2 where gs: "gets spacy_load langs p1 = (ys, p2)" by (cases "gets spacy_load langs p1")
  from Cons.prems g gs have p': "p' = p2" "xs = x # ys" by simp_all
  note a = get_cached_stays[OF g Cons.prems(2)]
  from a have c1: "spacys p1 k = Some r" by simp
  note b = Cons.IH[OF gs c1]
  show ?case using a b p' by (auto simp: nth_Cons split: nat.splits)
qed

lemma gets_dom:
  "gets spacy_load langs p = (xs, p') \<Longrightarrow>
   dom (spacys p') = dom (spacys p) \<union> {chars (langs ! i) | i. i < length langs \<and> (\<exists>r. xs ! i = Inr r)}"
proof (induction langs arbitrary: p xs p')
  case Nil
  then show ?case by simp
next
  case (Cons lang langs)
  obtain x p1 where g: "get spacy_load lang p = (x, p1)" by (cases "get spacy_load lang p")
  obtain ys p2 where gs: "gets spacy_load langs p1 = (ys, p2)" by (cases "gets spacy_load langs p1")
  from Cons.prems g gs have p': "p' = p2" "xs = x # ys" by simp_all
  have step: "dom (spacys p1) = dom (spacys p) \<union> (if \<exists>r. x = Inr r then {chars lang} else {})"
    using g by (cases rule: get_cases) auto
  have split: "{chars ((lang # langs) ! i) | i. i < length (lang # langs) \<and> (\<exists>r. (x # ys) ! i = Inr r)}
      = (if \<exists>r. x = Inr r then {chars lang} else {}) \<union>
        {chars (langs ! i) | i. i < length langs \<and> (\<exists>r. ys ! i = Inr r)}"
    (is "?L = ?R")
  proof
    show "?L \<subseteq> ?R"
    proof
      fix c assume "c \<in> ?L"
      then obtain i where i: "i < length (lang # langs)" "\<exists>r. (x # ys) ! i = Inr r" "c = chars ((lang # langs) ! i)"
        by blast
      show "c \<in> ?R"
      proof (cases i)
        case 0
        with i show ?thesis by auto
      next
        case (Suc j)
        with i have "j < length langs" "\<exists>r. ys ! j = Inr r" "c = chars (langs ! j)" by auto
        then show ?thesis by blast
      qed
    qed
    show "?R \<subseteq> ?L"
    proof
      fix c assume "c \<in> ?R"
      then consider "\<exists>r. x = Inr r" "c = chars lang"
        | j where "j < length langs" "\<exists>r. ys ! j = Inr r" "c = chars (langs ! j)"
        by (auto split: if_splits)
      then show "c \<in> ?L"
      proof cases
        case 1
        then have "0 < length (lang # langs) \<and> (\<exists>r. (x # ys) ! 0 = Inr r) \<and> c = chars ((lang # langs) ! 0)" by simp
        then show ?thesis by blast
      next
        case 2
        then have "Suc j < length (lang # langs) \<and> (\<exists>r. (x # ys) ! Suc j = Inr r) \<and> c = chars ((lang # langs) ! Suc j)" by simp
        then show ?thesis by blast
      qed
    qed
  qed
  show ?case using Cons.IH[OF gs] step split p' by auto
qed

subsection \<open>A process that only splits sentences\<close>

lemma split_sentences_impl_cache:
  "spacys (snd (split_sentences_impl spacy_load sents s p)) = spacys (snd (get spacy_load en p))
   \<and> trace (snd (split_sentences_impl spacy_load sents s p)) = trace (snd (get spacy_load en p))"
  by (simp add: split_sentences_impl_def split: prod.splits sum.splits)

lemma only_en_fresh: "only_en (fresh w)"
  by (simp add: only_en_def fresh_def)

lemma only_en_get:
  assumes "only_en p" "get spacy_load en p = (x, p')"
  shows "only_en p'"
proof -
  from assms(1) obtain fs where fs: "\<forall>e\<in>set fs. \<exists>x. e = Failed ''en'' x"
    "trace p = fs @ (case spacys p ''en'' of None \<Rightarrow> [] | Some r \<Rightarrow> [Built ''en'' r])"
    and d: "dom (spacys p) \<subseteq> {''en''}"
    unfolding only_en_def by blast
  have c: "chars en = ''en''" by (simp add: en_def)
  from assms(2) show ?thesis
  proof (cases rule: get_cases)
    case (hit r)
    with assms(1) show ?thesis by simp
  next
    case (built r w')
    with fs c have "trace p' = fs @ [Built ''en'' r]" "spacys p' ''en'' = Some r" by simp_all
    moreover from built d c have "dom (spacys p') \<subseteq> {''en''}" by auto
    ultimately show ?thesis unfolding only_en_def using fs(1) by auto
  next
    case (failed e w')
    with fs c have "trace p' = (fs @ [Failed ''en'' e]) @ []" "spacys p' ''en'' = None" by simp_all
    moreover from failed d have "dom (spacys p') \<subseteq> {''en''}" by simp
    moreover have "\<forall>e'\<in>set (fs @ [Failed ''en'' e]). \<exists>x. e' = Failed ''en'' x" using fs(1) by auto
    ultimately show ?thesis unfolding only_en_def
      by (metis (no_types, lifting) option.simps(4))
  qed
qed

lemma only_en_split:
  assumes "only_en p"
  shows "only_en (snd (split_sentences_impl spacy_load sents s p))"
proof -
  obtain x p1 where g: "get spacy_load en p = (x, p1)" by (cases "get spacy_load en p")
  from only_en_get[OF assms g] have "only_en p1" .
  moreover from split_sentences_impl_cache[of spacy_load sents s p] g
  have "spacys (snd (split_sentences_impl spacy_load sents s p)) = spacys p1"
    "trace (snd (split_sentences_impl spacy_load sents s p)) = trace p1" by simp_all
  ultimately show ?thesis by (simp add: only_en_def)
qed

lemma only_en_split_all:
  "only_en p \<Longrightarrow> only_en (snd (split_all spacy_load sents ss p))"
proof (induction ss arbitrary: p)
  case Nil
  then show ?case by simp
next
  case (Cons s ss)
  from only_en_split[OF Cons.prems, of spacy_load sents s]
  have "only_en (snd (split_sentences_impl spacy_load sents s p))" .
  from Cons.IH[OF this] show ?case by (auto split: prod.splits)
qed

lemma only_en_once:
  assumes "only_en p"
  shows "length (filter is_built (trace p)) \<le> 1"
proof -
  from assms obtain fs where fs: "\<forall>e\<in>set fs. \<exists>x. e = Failed ''en'' x"
    "trace p = fs @ (case spacys p ''en'' of None \<Rightarrow> [] | Some r \<Rightarrow> [Built ''en'' r])"
    unfolding only_en_def by blast
  from fs(1) have "filter is_built fs = []" by (auto simp: filter_empty_conv)
  with fs(2) show ?thesis by (simp split: option.splits)
qed

subsection \<open>Threads: a thread alone, every schedule, schedules without overlap\<close>

text \<open>A thread that runs alone does what \<open>get\<close> does.\<close>

lemma thread_alone_is_get:
  "run spacy_load (replicate 4 0) (spawn [lang], p) =
     ([(lang, Done (fst (get spacy_load lang p)))], snd (get spacy_load lang p))"
proof -
  have four: "replicate 4 (0::nat) = [0, 0, 0, 0]" by (simp add: numeral_eq_Suc)
  show ?thesis
  proof (cases "spacys p (chars lang)")
    case (Some r)
    then show ?thesis
      by (simp add: four sched_step_def spawn_def get_def)
  next
    case None
    obtain y w' where ld: "spacy_load (chars lang) (world p) = (y, w')"
      by (cases "spacy_load (chars lang) (world p)")
    show ?thesis
    proof (cases y)
      case (Inl e)
      with None ld show ?thesis
        by (simp add: four sched_step_def spawn_def get_def construct_def)
    next
      case (Inr r)
      with None ld show ?thesis
        by (simp add: four sched_step_def spawn_def get_def construct_def)
    qed
  qed
qed

lemma run_append: "run spacy_load (a @ b) st = run spacy_load b (run spacy_load a st)"
  by (induction a arbitrary: st) simp_all

lemma built_ok_start: "built_ok (spawn langs, fresh w)"
  by (auto simp: built_ok_def spawn_def fresh_def)

lemma thread_step_built_ok:
  assumes "built_ok (ts, p)" "(l, c) \<in> set ts" "thread_step spacy_load l c p = (c', p')"
  shows "built_ok (ts, p') \<and>
         (\<forall>x. c' = AtStore x \<or> c' = Done (Inr x) \<longrightarrow> Built (chars l) x \<in> set (trace p'))"
proof (cases c)
  case AtCheck
  with assms show ?thesis by (auto simp: built_ok_def split: if_splits)
next
  case AtLoad
  obtain y w' where ld: "spacy_load (chars l) (world p) = (y, w')"
    by (cases "spacy_load (chars l) (world p)")
  with assms AtLoad show ?thesis
    by (cases y) (auto simp: built_ok_def)
next
  case (AtStore x)
  with assms show ?thesis by (auto simp: built_ok_def split: if_splits)
next
  case AtReturn
  with assms show ?thesis by (auto simp: built_ok_def split: option.splits)
next
  case (Done y)
  with assms show ?thesis by (auto simp: built_ok_def)
qed

lemma sched_step_built_ok:
  assumes "built_ok st"
  shows "built_ok (sched_step spacy_load i st)"
proof -
  obtain ts p where st: "st = (ts, p)" by (cases st)
  show ?thesis
  proof (cases "i < length ts")
    case False
    with assms st show ?thesis by (simp add: sched_step_def)
  next
    case True
    obtain l c where tc: "ts ! i = (l, c)" by (cases "ts ! i")
    obtain c' p' where th: "thread_step spacy_load l c p = (c', p')"
      by (cases "thread_step spacy_load l c p")
    from True tc have mem: "(l, c) \<in> set ts" by (metis nth_mem)
    from thread_step_built_ok[OF assms[unfolded st] mem th]
    have a: "built_ok (ts, p')"
      and b: "\<forall>x. c' = AtStore x \<or> c' = Done (Inr x) \<longrightarrow> Built (chars l) x \<in> set (trace p')"
      by simp_all
    have sub: "set (ts[i := (l, c')]) \<subseteq> insert (l, c') (set ts)" by (rule set_update_subset_insert)
    have "built_ok (ts[i := (l, c')], p')"
      unfolding built_ok_def
    proof (intro conjI allI impI)
      fix k x assume "spacys (snd (ts[i := (l, c')], p')) k = Some x"
      with a show "Built k x \<in> set (trace (snd (ts[i := (l, c')], p')))"
        by (simp add: built_ok_def)
    next
      fix l2 c2 x
      assume m: "(l2, c2) \<in> set (fst (ts[i := (l, c')], p'))"
        and x: "c2 = AtStore x \<or> c2 = Done (Inr x)"
      from m sub have "(l2, c2) = (l, c') \<or> (l2, c2) \<in> set ts" by auto
      then show "Built (chars l2) x \<in> set (trace (snd (ts[i := (l, c')], p')))"
      proof
        assume "(l2, c2) = (l, c')"
        with b x show ?thesis by auto
      next
        assume "(l2, c2) \<in> set ts"
        with a x show ?thesis unfolding built_ok_def by (simp; blast)
      qed
    qed
    then show ?thesis using st True tc th by (simp add: sched_step_def)
  qed
qed

lemma run_built_ok: "built_ok st \<Longrightarrow> built_ok (run spacy_load sched st)"
  by (induction sched arbitrary: st) (simp_all add: sched_step_built_ok)

lemma turn:
  assumes key: "\<forall>l\<in>set langs. chars l = k"
    and absent: "spacys p k = None"
    and ld: "spacy_load k (world p) = (Inr r, w')"
    and pb: "pb = p\<lparr>spacys := (spacys p)(k \<mapsto> r), world := w', trace := trace p @ [Built k r]\<rparr>"
    and names: "map fst ts = langs"
    and pcs: "\<forall>j<length ts. snd (ts ! j) = (if j \<in> D then Done (Inr r) else AtCheck)"
    and q: "q = (if D = {} then p else pb)"
    and i: "i < length langs"
  shows "run spacy_load (replicate 4 i) (ts, q) = (ts[i := (langs ! i, Done (Inr r))], pb)"
proof -
  from names have len: "length ts = length langs" by (metis length_map)
  from names i len have f: "fst (ts ! i) = langs ! i" by (metis nth_map)
  from key i have k: "chars (langs ! i) = k" by simp
  have four: "replicate 4 i = [i, i, i, i]" by (simp add: numeral_eq_Suc)
  show ?thesis
  proof (cases "i \<in> D")
    case True
    with pcs i len f have t: "ts ! i = (langs ! i, Done (Inr r))" by (metis prod.collapse)
    from True q have "q = pb" by auto
    with t i len show ?thesis
      by (simp add: four sched_step_def list_update_same_conv[THEN iffD2])
  next
    case False
    with pcs i len f have t: "ts ! i = (langs ! i, AtCheck)" by (metis prod.collapse)
    show ?thesis
    proof (cases "D = {}")
      case True
      with q have "q = p" by simp
      with t i len absent ld k pb show ?thesis
        by (simp add: four sched_step_def)
    next
      case False
      with q have "q = pb" by simp
      with t i len k pb show ?thesis
        by (simp add: four sched_step_def)
    qed
  qed
qed

lemma turns:
  assumes key: "\<forall>l\<in>set langs. chars l = k"
    and absent: "spacys p k = None"
    and ld: "spacy_load k (world p) = (Inr r, w')"
    and pb: "pb = p\<lparr>spacys := (spacys p)(k \<mapsto> r), world := w', trace := trace p @ [Built k r]\<rparr>"
  shows "map fst ts = langs \<Longrightarrow>
     \<forall>j<length ts. snd (ts ! j) = (if j \<in> D then Done (Inr r) else AtCheck) \<Longrightarrow>
     q = (if D = {} then p else pb) \<Longrightarrow>
     \<forall>i\<in>set order. i < length langs \<Longrightarrow>
     \<exists>ts'. run spacy_load (serial order) (ts, q) = (ts', if D \<union> set order = {} then p else pb)
       \<and> map fst ts' = langs
       \<and> (\<forall>j<length ts'. snd (ts' ! j) = (if j \<in> D \<union> set order then Done (Inr r) else AtCheck))"
proof (induction order arbitrary: ts q D)
  case Nil
  then show ?case by (simp add: serial_def)
next
  case (Cons i order)
  from Cons.prems(4) have i: "i < length langs" by simp
  let ?ts1 = "ts[i := (langs ! i, Done (Inr r))]"
  from Cons.prems(1) have len: "length ts = length langs" by (metis length_map)
  have step: "run spacy_load (replicate 4 i) (ts, q) = (?ts1, pb)"
    using key absent ld pb Cons.prems(1,2,3) i by (rule turn)
  have n1: "map fst ?ts1 = langs"
    using Cons.prems(1) by (simp add: map_update)
  have p1: "\<forall>j<length ?ts1. snd (?ts1 ! j) = (if j \<in> insert i D then Done (Inr r) else AtCheck)"
  proof (intro allI impI)
    fix j assume "j < length ?ts1"
    then have j: "j < length ts" by simp
    show "snd (?ts1 ! j) = (if j \<in> insert i D then Done (Inr r) else AtCheck)"
    proof (cases "j = i")
      case True
      with j show ?thesis by simp
    next
      case False
      with j Cons.prems(2) show ?thesis by simp
    qed
  qed
  have q1: "pb = (if insert i D = {} then p else pb)" by simp
  from Cons.prems(4) have o: "\<forall>i\<in>set order. i < length langs" by simp
  from Cons.IH[OF n1 p1 q1 o] obtain ts' where
    r: "run spacy_load (serial order) (?ts1, pb) = (ts', if insert i D \<union> set order = {} then p else pb)"
      "map fst ts' = langs"
      "\<forall>j<length ts'. snd (ts' ! j) = (if j \<in> insert i D \<union> set order then Done (Inr r) else AtCheck)"
    by blast
  have "serial (i # order) = replicate 4 i @ serial order" by (simp add: serial_def)
  with step r show ?case by (simp add: run_append)
qed

section \<open>The claims\<close>

subsection \<open>C1: one construction per key\<close>

text \<open>
  C1. In a process that starts fresh, take the first call \<open>get(k)\<close> (the calls before it
  are for other keys) and any calls after it. The first call invokes the loader for \<open>k\<close>
  exactly once. When it returns an instance, every later call of \<open>get\<close> with key \<open>k\<close>
  returns that same instance, and the loader is never invoked for \<open>k\<close> again. With the
  counting loader, three calls \<open>get("en")\<close> return the same marker and leave the counter
  at 1.
\<close>

theorem get_constructs_once:
  assumes pre: "\<forall>l\<in>set pre. chars l \<noteq> chars k"
    and "gets spacy_load pre (fresh w) = (xs, p0)"
    and "get spacy_load k p0 = (x, p1)"
    and "gets spacy_load post p1 = (ys, p2)"
  shows "invocations (chars k) (trace p1) = 1
       \<and> (\<forall>r. x = Inr r \<longrightarrow>
            invocations (chars k) (trace p2) = 1
          \<and> (\<forall>i<length post. chars (post ! i) = chars k \<longrightarrow> ys ! i = Inr r))
       \<and> fst (gets counting_load [en, en, en] (fresh counting_start)) = [Inr 0, Inr 0, Inr 0]
       \<and> counter (world (snd (gets counting_load [en, en, en] (fresh counting_start)))) = 1"
proof -
  from gets_other_keys[OF assms(2) pre]
  have p0: "spacys p0 (chars k) = None" "invocations (chars k) (trace p0) = 0"
    by (simp_all add: fresh_def)
  have first: "invocations (chars k) (trace p1) = 1"
    using assms(3) by (cases rule: get_cases) (use p0 in auto)
  have later: "invocations (chars k) (trace p2) = 1
          \<and> (\<forall>i<length post. chars (post ! i) = chars k \<longrightarrow> ys ! i = Inr r)" if "x = Inr r" for r
  proof -
    have "spacys p1 (chars k) = Some r"
      using assms(3) by (cases rule: get_cases) (use p0 that in auto)
    from gets_cached_stays[OF assms(4) this] first show ?thesis by simp
  qed
  have scen: "gets counting_load [en, en, en] (fresh counting_start)
      = ([Inr 0, Inr 0, Inr 0], \<lparr>spacys = [''en'' \<mapsto> 0], world = \<lparr>counter = 1, markers = [''en'']\<rparr>,
            trace = [Built ''en'' 0]\<rparr>)"
    by (simp add: eval_defs)
  show ?thesis using first later scen by simp
qed

theorem get_constructs_once_witness:
  "chars fr \<noteq> chars en
   \<and> gets counting_load [fr] (fresh counting_start)
       = ([Inr 0], \<lparr>spacys = [''fr'' \<mapsto> 0], world = \<lparr>counter = 1, markers = [''fr'']\<rparr>,
                    trace = [Built ''fr'' 0]\<rparr>)
   \<and> fst (get counting_load en \<lparr>spacys = [''fr'' \<mapsto> 0], world = \<lparr>counter = 1, markers = [''fr'']\<rparr>,
                    trace = [Built ''fr'' 0]\<rparr>) = Inr 1
   \<and> fst (gets counting_load [en, fr, en2]
        \<lparr>spacys = [''fr'' \<mapsto> 0, ''en'' \<mapsto> 1], world = \<lparr>counter = 2, markers = [''fr'', ''en'']\<rparr>,
         trace = [Built ''fr'' 0, Built ''en'' 1]\<rparr>) = [Inr 1, Inr 0, Inr 1]
   \<and> invocations ''en'' (trace (snd (gets counting_load [en, fr, en2]
        \<lparr>spacys = [''fr'' \<mapsto> 0, ''en'' \<mapsto> 1], world = \<lparr>counter = 2, markers = [''fr'', ''en'']\<rparr>,
         trace = [Built ''fr'' 0, Built ''en'' 1]\<rparr>))) = 1"
proof -
  let ?P0 = "\<lparr>spacys = [''fr'' \<mapsto> (0::nat)], world = \<lparr>counter = 1, markers = [''fr'']\<rparr>,
                    trace = [Built ''fr'' 0]\<rparr>"
  let ?P1 = "\<lparr>spacys = [''fr'' \<mapsto> (0::nat), ''en'' \<mapsto> 1], world = \<lparr>counter = 2, markers = [''fr'', ''en'']\<rparr>,
         trace = [Built ''fr'' 0, Built ''en'' 1]\<rparr>"
  have a: "\<forall>l\<in>set [fr]. chars l \<noteq> chars en" by (simp add: eval_defs)
  have b: "gets counting_load [fr] (fresh counting_start) = ([Inr 0], ?P0)"
    by (simp add: eval_defs)
  have c: "get counting_load en ?P0 = (Inr 1, ?P1)"
    by (simp add: eval_defs)
  have d: "gets counting_load [en, fr, en2] ?P1 = ([Inr 1, Inr 0, Inr 1], ?P1)"
    by (simp add: eval_defs)
  from get_constructs_once[OF a b c d] a b c d show ?thesis by (simp add: en_def fr_def)
qed

subsection \<open>C2: a failed construction is not cached\<close>

text \<open>
  C2. When \<open>k\<close> is not cached and the loader raises for \<open>k\<close>, \<open>get(k)\<close> raises the same
  exception and leaves \<open>_spacys\<close> exactly as it was, so no entry is recorded for \<open>k\<close>. The
  next call \<open>get(k)\<close>, whatever calls for other keys come in between, invokes the loader
  again and returns what the loader returns then.
\<close>

theorem get_failure_not_cached:
  assumes absent: "spacys p (chars k) = None"
    and fails: "spacy_load (chars k) (world p) = (Inl e, w')"
    and others: "\<forall>l\<in>set others. chars l \<noteq> chars k"
    and between: "gets spacy_load others (snd (get spacy_load k p)) = (ys, p2)"
  shows "fst (get spacy_load k p) = Inl e
       \<and> spacys (snd (get spacy_load k p)) = spacys p
       \<and> invocations (chars k) (trace (snd (get spacy_load k p))) = invocations (chars k) (trace p) + 1
       \<and> spacys p2 (chars k) = None
       \<and> fst (get spacy_load k p2) = fst (spacy_load (chars k) (world p2))
       \<and> invocations (chars k) (trace (snd (get spacy_load k p2))) = invocations (chars k) (trace p) + 2"
proof -
  let ?p1 = "p\<lparr>world := w', trace := trace p @ [Failed (chars k) e]\<rparr>"
  have g: "get spacy_load k p = (Inl e, ?p1)"
    using absent fails by (rule get_miss_failed)
  from gets_other_keys[OF between others] g absent
  have p2: "spacys p2 (chars k) = None"
    "invocations (chars k) (trace p2) = invocations (chars k) (trace p) + 1"
    by simp_all
  obtain y w2 where ld: "spacy_load (chars k) (world p2) = (y, w2)"
    by (cases "spacy_load (chars k) (world p2)")
  have retry: "fst (get spacy_load k p2) = y
      \<and> invocations (chars k) (trace (snd (get spacy_load k p2))) = invocations (chars k) (trace p2) + 1"
  proof (cases y)
    case (Inl e2)
    with get_miss_failed[OF p2(1), of spacy_load e2 w2] ld show ?thesis by simp
  next
    case (Inr r2)
    with get_miss_built[OF p2(1), of spacy_load r2 w2] ld show ?thesis by simp
  qed
  show ?thesis using g p2 retry ld by simp
qed

theorem get_failure_not_cached_witness:
  "fst (get flaky_load en (fresh 0)) = Inl (LoadError ''en'')
   \<and> spacys (snd (get flaky_load en (fresh 0))) = Map.empty
   \<and> gets flaky_load [fr] (snd (get flaky_load en (fresh 0)))
       = ([Inr 1], \<lparr>spacys = [''fr'' \<mapsto> 1], world = 2,
                     trace = [Failed ''en'' (LoadError ''en''), Built ''fr'' 1]\<rparr>)
   \<and> fst (get flaky_load en \<lparr>spacys = [''fr'' \<mapsto> 1], world = 2,
                     trace = [Failed ''en'' (LoadError ''en''), Built ''fr'' 1]\<rparr>) = Inr 2
   \<and> invocations ''en'' (trace (snd (get flaky_load en \<lparr>spacys = [''fr'' \<mapsto> 1], world = 2,
                     trace = [Failed ''en'' (LoadError ''en''), Built ''fr'' 1]\<rparr>))) = 2"
proof -
  let ?P2 = "\<lparr>spacys = [''fr'' \<mapsto> (1::nat)], world = (2::nat),
                     trace = [Failed ''en'' (LoadError ''en''), Built ''fr'' 1]\<rparr>"
  have a: "spacys (fresh (0::nat) :: (nat, nat) process) (chars en) = None"
    by (simp add: eval_defs)
  have b: "flaky_load (chars en) (world (fresh (0::nat) :: (nat, nat) process)) = (Inl (LoadError ''en''), 1)"
    by (simp add: eval_defs)
  have c: "\<forall>l\<in>set [fr]. chars l \<noteq> chars en" by (simp add: eval_defs)
  have d: "gets flaky_load [fr] (snd (get flaky_load en (fresh 0))) = ([Inr 1], ?P2)"
    by (simp add: eval_defs)
  from get_failure_not_cached[OF a b c d] d show ?thesis
    by (simp add: eval_defs)
qed

subsection \<open>C4: distinct keys do not interfere\<close>

text \<open>
  C4. For two keys with different characters, a call for one leaves the entry of the other
  as it was. When neither is cached and both calls return, each instance comes from its own
  call of the loader with its own key, and each is stored under its own key. With the
  counting loader, \<open>get("en")\<close> then \<open>get("fr")\<close> leaves the counter at 2 and returns two
  different markers, the first tagged \<open>en\<close> and the second \<open>fr\<close>.
\<close>

theorem get_keys_independent:
  assumes "chars k1 \<noteq> chars k2"
  shows "spacys (snd (get spacy_load k1 p)) (chars k2) = spacys p (chars k2)
       \<and> (\<forall>r1 r2 p2. spacys p (chars k1) = None \<and> spacys p (chars k2) = None
            \<and> gets spacy_load [k1, k2] p = ([Inr r1, Inr r2], p2) \<longrightarrow>
              trace p2 = trace p @ [Built (chars k1) r1, Built (chars k2) r2]
            \<and> spacys p2 (chars k1) = Some r1 \<and> spacys p2 (chars k2) = Some r2)
       \<and> fst (gets counting_load [en, fr] (fresh counting_start)) = [Inr 0, Inr 1]
       \<and> counter (world (snd (gets counting_load [en, fr] (fresh counting_start)))) = 2
       \<and> markers (world (snd (gets counting_load [en, fr] (fresh counting_start)))) = [''en'', ''fr'']"
proof -
  obtain x p1 where g: "get spacy_load k1 p = (x, p1)" by (cases "get spacy_load k1 p")
  from get_other_key[OF g assms] g
  have frame: "spacys (snd (get spacy_load k1 p)) (chars k2) = spacys p (chars k2)" by simp
  have both: "trace p2 = trace p @ [Built (chars k1) r1, Built (chars k2) r2]
            \<and> spacys p2 (chars k1) = Some r1 \<and> spacys p2 (chars k2) = Some r2"
    if a: "spacys p (chars k1) = None" "spacys p (chars k2) = None"
      and gs: "gets spacy_load [k1, k2] p = ([Inr r1, Inr r2], p2)" for r1 r2 p2
  proof -
    obtain y q where g2: "get spacy_load k2 p1 = (y, q)" by (cases "get spacy_load k2 p1")
    from gs g g2 have eqs: "x = Inr r1" "y = Inr r2" "q = p2" by simp_all
    have p1: "trace p1 = trace p @ [Built (chars k1) r1]" "spacys p1 = (spacys p)(chars k1 \<mapsto> r1)"
      using g by (cases rule: get_cases; use a eqs in simp)+
    with a assms have "spacys p1 (chars k2) = None" by simp
    with g2 have "trace q = trace p1 @ [Built (chars k2) r2] \<and> spacys q = (spacys p1)(chars k2 \<mapsto> r2)"
      by (cases rule: get_cases) (use eqs in simp_all)
    with p1 eqs assms show ?thesis by simp
  qed
  have scen: "gets counting_load [en, fr] (fresh counting_start)
      = ([Inr 0, Inr 1], \<lparr>spacys = [''en'' \<mapsto> 0, ''fr'' \<mapsto> 1],
           world = \<lparr>counter = 2, markers = [''en'', ''fr'']\<rparr>,
           trace = [Built ''en'' 0, Built ''fr'' 1]\<rparr>)"
    by (simp add: eval_defs)
  show ?thesis using frame both scen by simp
qed

theorem get_keys_independent_witness:
  "chars fr \<noteq> chars en
   \<and> spacys (snd (get flaky_load fr \<lparr>spacys = [''en'' \<mapsto> 7], world = 3, trace = [Built ''en'' 7]\<rparr>)) (chars en)
       = Some 7
   \<and> spacys (snd (get flaky_load fr \<lparr>spacys = [''en'' \<mapsto> 7], world = 3, trace = [Built ''en'' 7]\<rparr>)) (chars fr)
       = Some 3
   \<and> gets flaky_load [fr, en] \<lparr>spacys = Map.empty, world = 3, trace = []\<rparr>
       = ([Inr 3, Inr 4], \<lparr>spacys = [''fr'' \<mapsto> 3, ''en'' \<mapsto> 4], world = 5,
                           trace = [Built ''fr'' 3, Built ''en'' 4]\<rparr>)
   \<and> trace \<lparr>spacys = [''fr'' \<mapsto> 3, ''en'' \<mapsto> 4], world = 5,
             trace = [Built ''fr'' 3, Built ''en'' (4::nat)]\<rparr>
       = [] @ [Built (chars fr) 3, Built (chars en) 4]"
proof -
  let ?P = "\<lparr>spacys = [''en'' \<mapsto> (7::nat)], world = (3::nat), trace = [Built ''en'' 7]\<rparr>"
  let ?Q0 = "\<lparr>spacys = Map.empty, world = (3::nat), trace = ([] :: nat event list)\<rparr>"
  let ?Q2 = "\<lparr>spacys = [''fr'' \<mapsto> (3::nat), ''en'' \<mapsto> 4], world = (5::nat),
              trace = [Built ''fr'' 3, Built ''en'' 4]\<rparr>"
  have a: "chars fr \<noteq> chars en" by (simp add: eval_defs)
  have b: "spacys ?Q0 (chars fr) = None \<and> spacys ?Q0 (chars en) = None" by simp
  have c: "gets flaky_load [fr, en] ?Q0 = ([Inr 3, Inr 4], ?Q2)" by (simp add: eval_defs)
  from get_keys_independent[OF a, where spacy_load = flaky_load and p = ?P]
  have frame: "spacys (snd (get flaky_load fr ?P)) (chars en) = spacys ?P (chars en)"
    by blast
  from get_keys_independent[OF a, where spacy_load = flaky_load and p = ?Q0] b c
  have both: "trace ?Q2 = trace ?Q0 @ [Built (chars fr) 3, Built (chars en) 4]"
    by blast
  have hit: "spacys (snd (get flaky_load fr ?P)) (chars fr) = Some 3" by (simp add: eval_defs)
  from a frame both c hit show ?thesis by (simp add: en_def)
qed

subsection \<open>C5: miss and hit\<close>

text \<open>
  C5. When no entry exists for \<open>k\<close> and the loader, applied to \<open>k\<close> itself, returns an
  instance, \<open>get(k)\<close> stores that instance under \<open>k\<close> and returns it. When an entry exists,
  \<open>get(k)\<close> returns it and changes nothing: the loader is not invoked.
\<close>

theorem get_absent_or_cached:
  "(spacys p (chars k) = None \<longrightarrow>
      (\<forall>r w'. spacy_load (chars k) (world p) = (Inr r, w') \<longrightarrow>
         get spacy_load k p =
           (Inr r, p\<lparr>spacys := (spacys p)(chars k \<mapsto> r), world := w',
                     trace := trace p @ [Built (chars k) r]\<rparr>)))
   \<and> (\<forall>r. spacys p (chars k) = Some r \<longrightarrow> get spacy_load k p = (Inr r, p))"
  using get_miss_built[of p k spacy_load] get_hit[of p k _ spacy_load] by blast

theorem get_absent_or_cached_witness:
  "spacys (fresh counting_start :: (counting, nat) process) (chars fr) = None
   \<and> counting_load (chars fr) (world (fresh counting_start :: (counting, nat) process))
       = (Inr 0, \<lparr>counter = 1, markers = [''fr'']\<rparr>)
   \<and> get counting_load fr (fresh counting_start)
       = (Inr 0, \<lparr>spacys = [''fr'' \<mapsto> 0], world = \<lparr>counter = 1, markers = [''fr'']\<rparr>,
                   trace = [Built ''fr'' 0]\<rparr>)
   \<and> get counting_load fr \<lparr>spacys = [''fr'' \<mapsto> 0], world = \<lparr>counter = 1, markers = [''fr'']\<rparr>,
                   trace = [Built ''fr'' 0]\<rparr>
       = (Inr 0, \<lparr>spacys = [''fr'' \<mapsto> 0], world = \<lparr>counter = 1, markers = [''fr'']\<rparr>,
                   trace = [Built ''fr'' 0]\<rparr>)"
proof -
  let ?P0 = "fresh counting_start :: (counting, nat) process"
  let ?P1 = "\<lparr>spacys = [''fr'' \<mapsto> (0::nat)], world = \<lparr>counter = 1, markers = [''fr'']\<rparr>,
                   trace = [Built ''fr'' 0]\<rparr>"
  have a: "spacys ?P0 (chars fr) = None" by (simp add: eval_defs)
  have b: "counting_load (chars fr) (world ?P0) = (Inr 0, \<lparr>counter = 1, markers = [''fr'']\<rparr>)"
    by (simp add: eval_defs)
  have c: "spacys ?P1 (chars fr) = Some 0" by (simp add: eval_defs)
  from get_absent_or_cached[of ?P0 fr counting_load] a b
  have miss: "get counting_load fr ?P0 = (Inr 0, ?P1)" by (simp add: eval_defs)
  from get_absent_or_cached[of ?P1 fr counting_load] c
  have hit: "get counting_load fr ?P1 = (Inr 0, ?P1)" by blast
  from a b miss hit show ?thesis by simp
qed

subsection \<open>C6: a cached key stays cached\<close>

text \<open>
  C6. After a call \<open>get(k)\<close> has returned an instance, any sequence of further calls leaves
  that instance stored under \<open>k\<close>, and every call for \<open>k\<close> among them returns it.
\<close>

theorem cached_is_terminal:
  assumes "get spacy_load k p = (Inr r, p1)"
    and "gets spacy_load langs p1 = (xs, p2)"
  shows "spacys p1 (chars k) = Some r
       \<and> spacys p2 (chars k) = Some r
       \<and> (\<forall>i<length langs. chars (langs ! i) = chars k \<longrightarrow> xs ! i = Inr r)"
proof -
  have "spacys p1 (chars k) = Some r"
    using assms(1) by (cases rule: get_cases) simp_all
  with gets_cached_stays[OF assms(2) this] show ?thesis by simp
qed

theorem cached_is_terminal_witness:
  "get flaky_load en \<lparr>spacys = Map.empty, world = 4, trace = []\<rparr>
     = (Inr 4, \<lparr>spacys = [''en'' \<mapsto> 4], world = 5, trace = [Built ''en'' 4]\<rparr>)
   \<and> gets flaky_load [fr, en2, en] \<lparr>spacys = [''en'' \<mapsto> 4], world = 5, trace = [Built ''en'' 4]\<rparr>
     = ([Inr 5, Inr 4, Inr 4],
        \<lparr>spacys = [''en'' \<mapsto> 4, ''fr'' \<mapsto> 5], world = 6, trace = [Built ''en'' 4, Built ''fr'' 5]\<rparr>)
   \<and> spacys \<lparr>spacys = [''en'' \<mapsto> 4, ''fr'' \<mapsto> 5], world = 6, trace = [Built ''en'' 4, Built ''fr'' 5]\<rparr>
        (chars en) = Some (4::nat)"
proof -
  let ?P0 = "\<lparr>spacys = Map.empty, world = (4::nat), trace = ([] :: nat event list)\<rparr>"
  let ?P1 = "\<lparr>spacys = [''en'' \<mapsto> (4::nat)], world = (5::nat), trace = [Built ''en'' 4]\<rparr>"
  let ?P2 = "\<lparr>spacys = [''en'' \<mapsto> (4::nat), ''fr'' \<mapsto> 5], world = (6::nat),
              trace = [Built ''en'' 4, Built ''fr'' 5]\<rparr>"
  have a: "get flaky_load en ?P0 = (Inr 4, ?P1)" by (simp add: eval_defs)
  have b: "gets flaky_load [fr, en2, en] ?P1 = ([Inr 5, Inr 4, Inr 4], ?P2)"
    by (simp add: eval_defs)
  from cached_is_terminal[OF a b] a b show ?thesis by simp
qed

subsection \<open>C7: entries are created lazily\<close>

text \<open>
  C7. The cache of a fresh process is empty. After any sequence of calls its domain is
  exactly the set of keys for which a call has returned an instance; a key that no call
  has asked for has no entry.
\<close>

theorem cache_created_lazily:
  assumes "p0 = fresh w"
    and "gets spacy_load langs p0 = (xs, p')"
  shows "spacys p0 = Map.empty
       \<and> dom (spacys p') = {chars (langs ! i) | i. i < length langs \<and> (\<exists>r. xs ! i = Inr r)}
       \<and> (\<forall>k. (\<forall>l\<in>set langs. chars l \<noteq> k) \<longrightarrow> spacys p' k = None)"
proof -
  have e: "spacys p0 = Map.empty" using assms(1) by (simp add: fresh_def)
  have d: "dom (spacys p') = {chars (langs ! i) | i. i < length langs \<and> (\<exists>r. xs ! i = Inr r)}"
    using gets_dom[OF assms(2)] e by simp
  have n: "spacys p' k = None" if "\<forall>l\<in>set langs. chars l \<noteq> k" for k
    using gets_other_keys[OF assms(2) that] e by simp
  show ?thesis using e d n by blast
qed

theorem cache_created_lazily_witness:
  "gets flaky_load [en, fr] (fresh 0)
     = ([Inl (LoadError ''en''), Inr 1],
        \<lparr>spacys = [''fr'' \<mapsto> 1], world = 2, trace = [Failed ''en'' (LoadError ''en''), Built ''fr'' 1]\<rparr>)
   \<and> dom [''fr'' \<mapsto> (1::nat)] = {''fr''}
   \<and> {chars ([en, fr] ! i) | i. i < length [en, fr]
            \<and> (\<exists>r. [Inl (LoadError ''en''), Inr (1::nat)] ! i = Inr r)} = {''fr''}
   \<and> [''fr'' \<mapsto> (1::nat)] ''de'' = None"
proof -
  let ?P = "\<lparr>spacys = [''fr'' \<mapsto> (1::nat)], world = (2::nat),
             trace = [Failed ''en'' (LoadError ''en''), Built ''fr'' 1]\<rparr>"
  have a: "gets flaky_load [en, fr] (fresh 0) = ([Inl (LoadError ''en''), Inr 1], ?P)"
    by (simp add: eval_defs)
  have b: "\<forall>l\<in>set [en, fr]. chars l \<noteq> ''de''" by (simp add: eval_defs)
  from cache_created_lazily[OF refl a] b
  have "dom [''fr'' \<mapsto> (1::nat)] = {chars ([en, fr] ! i) | i. i < length [en, fr]
            \<and> (\<exists>r. [Inl (LoadError ''en''), Inr (1::nat)] ! i = Inr r)}
        \<and> [''fr'' \<mapsto> (1::nat)] ''de'' = None"
    by simp
  with a show ?thesis by simp
qed

subsection \<open>C8: a hit changes nothing\<close>

text \<open>
  C8. When \<open>k\<close> is cached, \<open>get(k)\<close> returns the stored instance and leaves the whole process
  state as it was; two calls in a row give the same final state as one, and both return
  what the one returns.
\<close>

theorem get_idempotent_on_hit:
  assumes "spacys p (chars k) = Some r"
  shows "get spacy_load k p = (Inr r, p)
       \<and> gets spacy_load [k, k] p = ([Inr r, Inr r], p)
       \<and> snd (gets spacy_load [k, k] p) = snd (get spacy_load k p)
       \<and> fst (gets spacy_load [k, k] p) = [fst (get spacy_load k p), fst (get spacy_load k p)]"
  using get_hit[OF assms, of spacy_load] by simp

theorem get_idempotent_on_hit_witness:
  "spacys \<lparr>spacys = [''en'' \<mapsto> 5], world = counting_start, trace = [Built ''en'' 5]\<rparr> (chars en) = Some (5::nat)
   \<and> gets counting_load [en, en] \<lparr>spacys = [''en'' \<mapsto> 5], world = counting_start, trace = [Built ''en'' 5]\<rparr>
     = ([Inr 5, Inr 5], \<lparr>spacys = [''en'' \<mapsto> 5], world = counting_start, trace = [Built ''en'' 5]\<rparr>)"
proof -
  let ?P = "\<lparr>spacys = [''en'' \<mapsto> (5::nat)], world = counting_start, trace = [Built ''en'' 5]\<rparr>"
  have a: "spacys ?P (chars en) = Some 5" by (simp add: en_def)
  from get_idempotent_on_hit[OF a, of counting_load] a show ?thesis by simp
qed

subsection \<open>C9: lookup is by the characters of the key\<close>

text \<open>
  C9. Two \<open>str\<close> objects with the same characters are the same key, whatever their
  identities: when the key is not cached and the loader returns an instance, \<open>get(k1)\<close>
  followed by \<open>get(k2)\<close> invokes the loader once and both calls return that instance.
\<close>

theorem lookup_by_characters:
  assumes "chars k1 = chars k2"
    and "spacys p (chars k1) = None"
    and "spacy_load (chars k1) (world p) = (Inr r, w')"
  shows "gets spacy_load [k1, k2] p =
           ([Inr r, Inr r], p\<lparr>spacys := (spacys p)(chars k1 \<mapsto> r), world := w',
                              trace := trace p @ [Built (chars k1) r]\<rparr>)
       \<and> invocations (chars k1) (trace (snd (gets spacy_load [k1, k2] p)))
           = invocations (chars k1) (trace p) + 1"
proof -
  let ?p1 = "p\<lparr>spacys := (spacys p)(chars k1 \<mapsto> r), world := w',
               trace := trace p @ [Built (chars k1) r]\<rparr>"
  have g1: "get spacy_load k1 p = (Inr r, ?p1)"
    using assms(2,3) by (rule get_miss_built)
  have "spacys ?p1 (chars k2) = Some r" using assms(1) by simp
  then have g2: "get spacy_load k2 ?p1 = (Inr r, ?p1)" by (rule get_hit)
  show ?thesis using g1 g2 by simp
qed

theorem lookup_by_characters_witness:
  "chars en = chars en2 \<and> ident en \<noteq> ident en2
   \<and> gets counting_load [en, en2] (fresh counting_start)
       = ([Inr 0, Inr 0], \<lparr>spacys = [''en'' \<mapsto> 0], world = \<lparr>counter = 1, markers = [''en'']\<rparr>,
                           trace = [Built ''en'' 0]\<rparr>)"
proof -
  let ?P0 = "fresh counting_start :: (counting, nat) process"
  have a: "chars en = chars en2" by (simp add: eval_defs)
  have b: "spacys ?P0 (chars en) = None" by (simp add: eval_defs)
  have c: "counting_load (chars en) (world ?P0) = (Inr 0, \<lparr>counter = 1, markers = [''en'']\<rparr>)"
    by (simp add: eval_defs)
  from lookup_by_characters[where spacy_load = counting_load, OF a b c] show ?thesis by (simp add: eval_defs)
qed

subsection \<open>C3: threads\<close>

text \<open>
  C3 says that threads calling \<open>get(k)\<close> at the same time for an uncached key cause one
  construction and all receive the same instance. \<open>get\<close> takes no lock, and the claim fails:
  two threads that both pass the test before either stores each call the loader, and
  here each returns its own instance.
\<close>

theorem get_threads_race:
  "map snd (fst (run counting_load [0, 1, 0, 1, 0, 0, 1, 1] (spawn [en, en], fresh counting_start)))
     = [Done (Inr 0), Done (Inr 1)]
   \<and> counter (world (snd (run counting_load [0, 1, 0, 1, 0, 0, 1, 1]
        (spawn [en, en], fresh counting_start)))) = 2
   \<and> invocations ''en'' (trace (snd (run counting_load [0, 1, 0, 1, 0, 0, 1, 1]
        (spawn [en, en], fresh counting_start)))) = 2"
proof -
  have "run counting_load [0, 1, 0, 1, 0, 0, 1, 1] (spawn [en, en], fresh counting_start)
      = ([(en, Done (Inr 0)), (en, Done (Inr 1))],
         \<lparr>spacys = [''en'' \<mapsto> 1], world = \<lparr>counter = 2, markers = [''en'', ''en'']\<rparr>,
          trace = [Built ''en'' 0, Built ''en'' 1]\<rparr>)"
    by (simp add: sched_step_def spawn_def counting_load_def counting_start_def fresh_def en_def)
  then show ?thesis by (simp add: invocations_def)
qed

text \<open>
  C3, as amended. When the calls of the threads for the same uncached key do not overlap
  (each runs from its test to its return before the next starts, in any order) and the
  loader returns an instance, there is exactly one construction and every caller receives
  that instance. Under every schedule, overlapping or not, an instance that a caller
  receives is one that a finished call of the loader for that key has returned.
\<close>

theorem get_threads_serial:
  fixes p :: "('w, 'r) process"
  assumes key: "\<forall>l\<in>set langs. chars l = k"
    and some: "langs \<noteq> []"
    and absent: "spacys p k = None"
    and ld: "spacy_load k (world p) = (Inr r, w')"
    and order: "set order = {0..<length langs}"
  shows "run spacy_load (serial order) (spawn langs, p) =
           (map (\<lambda>l. (l, Done (Inr r))) langs,
            p\<lparr>spacys := (spacys p)(k \<mapsto> r), world := w', trace := trace p @ [Built k r]\<rparr>)
       \<and> invocations k (trace (snd (run spacy_load (serial order) (spawn langs, p))))
           = invocations k (trace p) + 1
       \<and> (\<forall>sched ls w l x.
            (l, Done (Inr x)) \<in> set (fst (run spacy_load sched (spawn ls, fresh w))) \<longrightarrow>
            Built (chars l) x \<in> set (trace (snd (run spacy_load sched (spawn ls, fresh w)))))"
proof -
  let ?pb = "p\<lparr>spacys := (spacys p)(k \<mapsto> r), world := w', trace := trace p @ [Built k r]\<rparr>"
  have n0: "map fst (spawn langs :: (pystr \<times> 'r pc) list) = langs"
    by (simp add: spawn_def comp_def)
  have p0: "\<forall>j<length (spawn langs :: (pystr \<times> 'r pc) list).
      snd ((spawn langs :: (pystr \<times> 'r pc) list) ! j) = (if j \<in> {} then Done (Inr r) else AtCheck)"
    by (simp add: spawn_def)
  have q0: "p = (if ({}::nat set) = {} then p else ?pb)" by simp
  from order have o: "\<forall>i\<in>set order. i < length langs" by simp
  from turns[where spacy_load = spacy_load and D = "{}" and q = p, OF key absent ld refl n0 p0 q0 o] obtain ts' where
    r: "run spacy_load (serial order) (spawn langs, p) = (ts', if {} \<union> set order = {} then p else ?pb)"
      "map fst ts' = langs"
      "\<forall>j<length ts'. snd (ts' ! j) = (if j \<in> {} \<union> set order then Done (Inr r) else AtCheck)"
    by blast
  from some order have ne: "set order \<noteq> {}" by simp
  from r(2) have len: "length ts' = length langs" by (metis length_map)
  have "ts' = map (\<lambda>l. (l, Done (Inr r))) langs"
  proof (rule nth_equalityI)
    show "length ts' = length (map (\<lambda>l. (l, Done (Inr r))) langs)" using len by simp
  next
    fix j assume j: "j < length ts'"
    with r(2) have "fst (ts' ! j) = langs ! j" by (metis nth_map)
    moreover from j r(3) order len have "snd (ts' ! j) = Done (Inr r)" by simp
    ultimately show "ts' ! j = map (\<lambda>l. (l, Done (Inr r))) langs ! j"
      using j len by (simp add: prod_eq_iff)
  qed
  with r(1) ne have fin: "run spacy_load (serial order) (spawn langs, p) =
      (map (\<lambda>l. (l, Done (Inr r))) langs, ?pb)" by simp
  have any: "Built (chars l) x \<in> set (trace (snd (run spacy_load sched (spawn ls, fresh w))))"
    if "(l, Done (Inr x)) \<in> set (fst (run spacy_load sched (spawn ls, fresh w)))"
    for sched ls l x and w :: 'w
    using run_built_ok[OF built_ok_start, of spacy_load sched ls w] that
    unfolding built_ok_def by blast
  show ?thesis using fin any by simp
qed

theorem get_threads_serial_witness:
  "run counting_load (serial [2, 0, 1]) (spawn [en, en2, en], fresh counting_start)
     = ([(en, Done (Inr 0)), (en2, Done (Inr 0)), (en, Done (Inr 0))],
        \<lparr>spacys = [''en'' \<mapsto> 0], world = \<lparr>counter = 1, markers = [''en'']\<rparr>,
         trace = [Built ''en'' 0]\<rparr>)
   \<and> invocations ''en'' (trace (snd (run counting_load (serial [2, 0, 1])
        (spawn [en, en2, en], fresh counting_start)))) = 1
   \<and> (en, Done (Inr 1))
        \<in> set (fst (run counting_load [0, 1, 0, 1, 0, 0, 1, 1] (spawn [en, en], fresh counting_start)))
   \<and> Built (chars en) 1
        \<in> set (trace (snd (run counting_load [0, 1, 0, 1, 0, 0, 1, 1]
             (spawn [en, en], fresh counting_start))))"
proof -
  let ?P0 = "fresh counting_start :: (counting, nat) process"
  have m: "(en, Done (Inr 1))
        \<in> set (fst (run counting_load [0, 1, 0, 1, 0, 0, 1, 1] (spawn [en, en], fresh counting_start)))"
    by (simp add: sched_step_def spawn_def counting_load_def counting_start_def fresh_def)
  have a: "\<forall>l\<in>set [en, en2, en]. chars l = ''en''" by (simp add: eval_defs)
  have b: "[en, en2, en] \<noteq> []" by simp
  have c: "spacys ?P0 ''en'' = None" by (simp add: eval_defs)
  have d: "counting_load ''en'' (world ?P0) = (Inr 0, \<lparr>counter = 1, markers = [''en'']\<rparr>)"
    by (simp add: eval_defs)
  have e: "set [2, 0, 1] = {0..<length [en, en2, en]}" by auto
  note t = get_threads_serial[where spacy_load = counting_load, OF a b c d e]
  from t m have "Built (chars en) 1
        \<in> set (trace (snd (run counting_load [0, 1, 0, 1, 0, 0, 1, 1]
             (spawn [en, en], fresh counting_start))))"
    by blast
  with t m show ?thesis by (simp add: fresh_def)
qed

subsection \<open>C10: split_sentences_impl only ever asks for en\<close>

text \<open>
  C10. The only effect of \<open>split_sentences_impl\<close> on the cache and on the log is that of
  \<open>get("en")\<close>. So after any sequence of calls of \<open>split_sentences_impl\<close> in a fresh process
  the domain of the cache is within \<open>{"en"}\<close>, every call of the loader was for \<open>en\<close>, and
  at most one model has been constructed: the log is a run of failed loads followed by at
  most one successful load, the one that is cached.
\<close>

theorem split_sentences_only_en:
  assumes "p0 = fresh w"
  shows "spacys (snd (split_sentences_impl spacy_load sents s p)) = spacys (snd (get spacy_load en p))
       \<and> trace (snd (split_sentences_impl spacy_load sents s p)) = trace (snd (get spacy_load en p))
       \<and> dom (spacys (snd (split_all spacy_load sents ss p0))) \<subseteq> {''en''}
       \<and> (\<exists>fs. (\<forall>e\<in>set fs. \<exists>x. e = Failed ''en'' x) \<and>
            trace (snd (split_all spacy_load sents ss p0)) =
              fs @ (case spacys (snd (split_all spacy_load sents ss p0)) ''en'' of
                      None \<Rightarrow> [] | Some r \<Rightarrow> [Built ''en'' r]))
       \<and> length (filter is_built (trace (snd (split_all spacy_load sents ss p0)))) \<le> 1"
proof -
  have inv: "only_en (snd (split_all spacy_load sents ss p0))"
    using only_en_split_all[OF only_en_fresh] assms by simp
  from inv only_en_once[OF inv] split_sentences_impl_cache[of spacy_load sents s p]
  show ?thesis unfolding only_en_def by blast
qed

theorem split_sentences_only_en_witness:
  "split_all flaky_load (\<lambda>m s w. (Inr [s], w)) [''a b'', ''c'', ''d''] (fresh 0)
     = ([Inl (LoadError ''en''), Inr [''c''], Inr [''d'']],
        \<lparr>spacys = [''en'' \<mapsto> 1], world = 2,
         trace = [Failed ''en'' (LoadError ''en''), Built ''en'' 1]\<rparr>)
   \<and> dom [''en'' \<mapsto> (1::nat)] \<subseteq> {''en''}
   \<and> length (filter is_built [Failed ''en'' (LoadError ''en''), Built ''en'' (1::nat)]) \<le> 1"
proof -
  have a: "split_all flaky_load (\<lambda>m s w. (Inr [s], w)) [''a b'', ''c'', ''d''] (fresh 0)
     = ([Inl (LoadError ''en''), Inr [''c''], Inr [''d'']],
        \<lparr>spacys = [''en'' \<mapsto> 1], world = 2,
         trace = [Failed ''en'' (LoadError ''en''), Built ''en'' 1]\<rparr>)"
    by (simp add: split_sentences_impl_def eval_defs)
  from split_sentences_only_en[OF refl, where spacy_load = flaky_load and sents = "\<lambda>m s w. (Inr [s], w)"
      and ss = "[''a b'', ''c'', ''d'']" and w = 0] a
  show ?thesis by simp
qed

end
